theory Spec2Isabelle
  imports Complex_Main
begin

section \<open>Array utilities of App.tsx\<close>

text \<open>
  The batching utility is embedded twice. \<open>chunked\<close> is the loop at integer sizes on
  lists of any length; it is what the fetcher calls, with the literal 30. \<open>chunked_limited\<close>
  further below is the same loop with what the language adds to it: a size that is any
  \<^verbatim>\<open>number\<close>, and an array of chunks that holds at most \<open>2\<^sup>3\<^sup>2 - 1\<close> elements. The two
  give the same chunks for every positive integer size on every array
  (\<open>chunked_limited_agrees\<close>).

  \<^verbatim>\<open>arr.slice(start, end)\<close>: a negative index counts from the end of the array, both
  indices are clamped to the array, and an empty range gives the empty array.
\<close>

definition array_slice :: "'a list \<Rightarrow> int \<Rightarrow> int \<Rightarrow> 'a list" where
  "array_slice arr start fin =
     (let len = int (length arr);
          k = (if start < 0 then max (len + start) 0 else min start len);
          final = (if fin < 0 then max (len + fin) 0 else min fin len)
      in take (nat (final - k)) (drop (nat k) arr))"

text \<open>
  \<^verbatim>\<open>
  const chunked = <T,>(arr: T[], size: number): T[][] => {
      const chunks: T[][] = [];
      for (let i = 0, il = arr.length; i < il; i += size) {
          chunks.push(arr.slice(i, i + size));
      }
      return chunks;
  };
  \<close>
  At integer sizes, without the length limit of arrays: the loop has no bound of its own,
  so it is a partial function, and the value \<open>None\<close> stands for a loop that never
  leaves. With a positive size fewer chunks are pushed than the array has elements, so
  the limit is never met.
\<close>

partial_function (option) chunked_loop ::
  "'a list \<Rightarrow> int \<Rightarrow> int \<Rightarrow> int \<Rightarrow> 'a list list \<Rightarrow> 'a list list option" where
  "chunked_loop arr size' i il chunks =
     (if i < il
      then chunked_loop arr size' (i + size') il (chunks @ [array_slice arr i (i + size')])
      else Some chunks)"

declare chunked_loop.simps [code]

definition chunked :: "'a list \<Rightarrow> int \<Rightarrow> 'a list list option" where
  "chunked arr size' = chunked_loop arr size' 0 (int (length arr)) []"

subsection \<open>The loop with numbers and the length limit of arrays\<close>

text \<open>
  A \<^verbatim>\<open>number\<close> is not-a-number, one of the two infinities, or finite. Finite numbers
  are taken as reals and added exactly: the rounding of doubles is left out. \<open>num_add\<close>
  is \<^verbatim>\<open>+\<close>, \<open>num_less\<close> is \<^verbatim>\<open><\<close> and \<open>num_le\<close> is \<^verbatim>\<open><=\<close>; a comparison with
  not-a-number is false.
\<close>

datatype number = NaN | NegInfinity | Finite real | Infinity

fun num_add :: "number \<Rightarrow> number \<Rightarrow> number" where
  "num_add (Finite x) (Finite y) = Finite (x + y)"
| "num_add NaN y = NaN"
| "num_add x NaN = NaN"
| "num_add Infinity NegInfinity = NaN"
| "num_add NegInfinity Infinity = NaN"
| "num_add Infinity y = Infinity"
| "num_add x Infinity = Infinity"
| "num_add NegInfinity y = NegInfinity"
| "num_add x NegInfinity = NegInfinity"

fun num_less :: "number \<Rightarrow> number \<Rightarrow> bool" where
  "num_less (Finite x) (Finite y) = (x < y)"
| "num_less NaN y = False"
| "num_less x NaN = False"
| "num_less x NegInfinity = False"
| "num_less Infinity y = False"
| "num_less NegInfinity y = True"
| "num_less x Infinity = True"

fun num_le :: "number \<Rightarrow> number \<Rightarrow> bool" where
  "num_le (Finite x) (Finite y) = (x \<le> y)"
| "num_le NaN y = False"
| "num_le x NaN = False"
| "num_le NegInfinity y = True"
| "num_le x Infinity = True"
| "num_le x NegInfinity = False"
| "num_le Infinity y = False"

text \<open>
  \<^verbatim>\<open>slice\<close> turns each argument into an integer or an infinity (not-a-number becomes 0,
  a fraction is cut off towards 0) and then into a position of the array, as above.
\<close>

fun ToIntegerOrInfinity :: "number \<Rightarrow> number" where
  "ToIntegerOrInfinity NaN = Finite 0"
| "ToIntegerOrInfinity (Finite x) = Finite (if x < 0 then of_int \<lceil>x\<rceil> else of_int \<lfloor>x\<rfloor>)"
| "ToIntegerOrInfinity Infinity = Infinity"
| "ToIntegerOrInfinity NegInfinity = NegInfinity"

fun relative_index :: "nat \<Rightarrow> number \<Rightarrow> nat" where
  "relative_index len NegInfinity = 0"
| "relative_index len (Finite r) =
     (if r < 0 then nat (max (int len + \<lfloor>r\<rfloor>) 0) else nat (min \<lfloor>r\<rfloor> (int len)))"
| "relative_index len Infinity = len"
| "relative_index len NaN = 0"

definition slice_number :: "'a list \<Rightarrow> number \<Rightarrow> number \<Rightarrow> 'a list" where
  "slice_number arr start fin =
     (let len = length arr;
          k = relative_index len (ToIntegerOrInfinity start);
          final = relative_index len (ToIntegerOrInfinity fin)
      in take (final - k) (drop k arr))"

text \<open>
  An array has at most \<open>2\<^sup>3\<^sup>2 - 1\<close> elements: \<^verbatim>\<open>push\<close> on an array of that length throws
  a \<^verbatim>\<open>RangeError\<close> when it sets the new length. (An engine that runs out of memory
  before that stops the program earlier; that is not part of the language and not
  modelled.)
\<close>

datatype js_error = RangeError

definition max_array_length :: nat where
  "max_array_length = 2 ^ 32 - 1"

definition array_push :: "'a list \<Rightarrow> 'a \<Rightarrow> js_error + 'a list" where
  "array_push xs x = (if length xs < max_array_length then Inr (xs @ [x]) else Inl RangeError)"

text \<open>
  The loop of \<^verbatim>\<open>chunked\<close> again. Every round pushes a chunk, so with the limit on
  the array of chunks the loop ends for every input: with the chunks, or with the error
  of the push.
\<close>

function chunked_limited_loop ::
  "'a list \<Rightarrow> number \<Rightarrow> number \<Rightarrow> number \<Rightarrow> 'a list list \<Rightarrow> js_error + 'a list list" where
  "chunked_limited_loop arr size' i il chunks =
     (if num_less i il
      then (case array_push chunks (slice_number arr i (num_add i size')) of
              Inl e \<Rightarrow> Inl e
            | Inr chunks' \<Rightarrow> chunked_limited_loop arr size' (num_add i size') il chunks')
      else Inr chunks)"
  by pat_completeness auto
termination
  by (relation "measure (\<lambda>(arr, size', i, il, chunks). max_array_length - length chunks)")
     (auto simp: array_push_def split: if_splits)

declare chunked_limited_loop.simps [simp del]

definition chunked_limited :: "'a list \<Rightarrow> number \<Rightarrow> js_error + 'a list list" where
  "chunked_limited arr size' =
     chunked_limited_loop arr size' (Finite 0) (Finite (real (length arr))) []"

text \<open>
  \<^verbatim>\<open>
  const mapDefined = <T, R>(array: T[], mapper: (value: T) => R | undefined): R[] => {
      var mapped: R[] = [];
      var idx = 0;
      var len = array.length;
      var temp: R | undefined;
      for (; idx < len; idx++) {
          if ((temp = mapper(array[idx])) !== undefined) {
              mapped.push(temp);
          }
      }
      return mapped;
  };
  \<close>
  A mapper result of type \<open>R | undefined\<close> is an \<open>option\<close>.
\<close>

function mapDefined_loop ::
  "'t list \<Rightarrow> ('t \<Rightarrow> 'r option) \<Rightarrow> nat \<Rightarrow> nat \<Rightarrow> 'r list \<Rightarrow> 'r list" where
  "mapDefined_loop array mapper idx len mapped =
     (if idx < len
      then mapDefined_loop array mapper (idx + 1) len
             (case mapper (array ! idx) of
                Some temp \<Rightarrow> mapped @ [temp]
              | None \<Rightarrow> mapped)
      else mapped)"
  by pat_completeness auto
termination
  by (relation "measure (\<lambda>(array, mapper, idx, len, mapped). len - idx)") auto

declare mapDefined_loop.simps [simp del]

definition mapDefined :: "'t list \<Rightarrow> ('t \<Rightarrow> 'r option) \<Rightarrow> 'r list" where
  "mapDefined array mapper = mapDefined_loop array mapper 0 (length array) []"

section \<open>The remote service\<close>

text \<open>
  Modelled from the spec: the type declarations of the client library
  (\<^verbatim>\<open>@externdefs/bluesky-client\<close>) are not part of the sources. An entry of
  \<^verbatim>\<open>response.data.relationships\<close> is one of several shapes tagged by a type
  discriminator (\<^verbatim>\<open>$type\<close>); the "relationship" shape carries a boolean
  \<^verbatim>\<open>followedBy\<close> flag and a \<^verbatim>\<open>did\<close> field. The record holds the three fields
  the code reads; for an entry of another shape the last two are whatever a read of them
  would give.
\<close>

record relation =
  dollar_type :: string
  did :: string
  followedBy :: bool

text \<open>
  A call \<^verbatim>\<open>agent.rpc.get(nsid, { signal, params })\<close>, as the service sees it: the
  cancellation token and the parameters.
\<close>

datatype 's rpc_call =
    ResolveHandle 's string
  | GetRelationships 's string "string list"

text \<open>
  What becomes of the promise a call returns: it stays pending for ever, is fulfilled
  with the response data, or is rejected with an error (a failed or an aborted request).
  The number is the moment the promise settles.
\<close>

datatype ('e, 'a) promise = Pending | Fulfilled nat 'a | Rejected nat 'e

text \<open>
  The service is outside the program: it is a parameter that answers each call. Its
  first argument is the number of calls issued before, so that two calls with the same
  parameters may be answered differently.
\<close>

record ('s, 'e) agent =
  resolveHandle_reply :: "nat \<Rightarrow> 's \<Rightarrow> string \<Rightarrow> ('e, string) promise"
  getRelationships_reply :: "nat \<Rightarrow> 's \<Rightarrow> string \<Rightarrow> string list \<Rightarrow> ('e, relation list) promise"

text \<open>Issuing a call appends it to the list of calls made so far and returns its promise.\<close>

definition rpc_get_resolveHandle ::
  "('s, 'e) agent \<Rightarrow> 's \<Rightarrow> string \<Rightarrow> 's rpc_call list
     \<Rightarrow> 's rpc_call list \<times> ('e, string) promise" where
  "rpc_get_resolveHandle ag sg handle calls =
     (calls @ [ResolveHandle sg handle], resolveHandle_reply ag (length calls) sg handle)"

definition rpc_get_getRelationships ::
  "('s, 'e) agent \<Rightarrow> 's \<Rightarrow> string \<Rightarrow> string list \<Rightarrow> 's rpc_call list
     \<Rightarrow> 's rpc_call list \<times> ('e, relation list) promise" where
  "rpc_get_getRelationships ag sg actor others calls =
     (calls @ [GetRelationships sg actor others],
      getRelationships_reply ag (length calls) sg actor others)"

text \<open>
  \<^verbatim>\<open>await p\<close>: \<open>None\<close> when the promise never settles, otherwise the value, or the
  error that is thrown.
\<close>

fun await :: "('e, 'a) promise \<Rightarrow> ('e + 'a) option" where
  "await Pending = None"
| "await (Fulfilled t v) = Some (Inr v)"
| "await (Rejected t e) = Some (Inl e)"

text \<open>
  \<^verbatim>\<open>Promise.all(promises)\<close> is rejected as soon as one of the promises is, with that
  promise's error; it is fulfilled with the values, in the order of the promises, once all
  of them are. \<open>first_rejection\<close> finds the rejection that settles first (the one of
  lowest index among those of the same moment).
\<close>

fun first_rejection :: "('e, 'a) promise list \<Rightarrow> (nat \<times> 'e) option" where
  "first_rejection [] = None"
| "first_rejection (Rejected t e # ps) =
     (case first_rejection ps of
        None \<Rightarrow> Some (t, e)
      | Some (t', e') \<Rightarrow> if t' < t then Some (t', e') else Some (t, e))"
| "first_rejection (p # ps) = first_rejection ps"

fun fulfilled_values :: "('e, 'a) promise list \<Rightarrow> 'a list option" where
  "fulfilled_values [] = Some []"
| "fulfilled_values (Fulfilled t v # ps) =
     (case fulfilled_values ps of None \<Rightarrow> None | Some vs \<Rightarrow> Some (v # vs))"
| "fulfilled_values (p # ps) = None"

definition Promise_all :: "('e, 'a) promise list \<Rightarrow> ('e + 'a list) option" where
  "Promise_all promises =
     (case first_rejection promises of
        Some (t, e) \<Rightarrow> Some (Inl e)
      | None \<Rightarrow>
          (case fulfilled_values promises of
             None \<Rightarrow> None
           | Some values \<Rightarrow> Some (Inr values)))"

section \<open>The lookup of App.tsx\<close>

definition members :: "(string \<times> string) list" where
  "members =
    [(''did:plc:3jpt2mvvsumj2r7eqk4gzzjz'', ''esb.lol''),
     (''did:plc:44ybard66vv44zksje25o7dz'', ''bnewbold.net''),
     (''did:plc:fgsn4gf2dlgnybo4nbej5b2s'', ''anshnanda.com''),
     (''did:plc:fpruhuo22xkm5o7ttr2ktxdo'', ''danabra.mov''),
     (''did:plc:l3rouwludahu3ui3bt66mfvj'', ''divy.zone''),
     (''did:plc:oisofpd7lj26yvgiivf3lxsi'', ''haileyok.com''),
     (''did:plc:oky5czdrnfjpqslsw2a5iclo'', ''jay.bsky.team''),
     (''did:plc:q6gjnaw2blty4crticxkmujt'', ''jaz.bsky.social''),
     (''did:plc:qjeavhlw222ppsre4rscd3n2'', ''rose.bsky.team''),
     (''did:plc:ragtjsm2j2vknwkz3zp4oxrd'', ''pfrazee.com''),
     (''did:plc:tl7zqgil2irwndwojsxszceb'', ''jessica.bsky.team''),
     (''did:plc:tpg43qhh4lw4ksiffs4nbda3'', ''jacob.gold''),
     (''did:plc:upo6iq6ekh66d4mbhmiy6se4'', ''foysal.codes''),
     (''did:plc:vjug55kidv6sye7ykr5faxxn'', ''emilyliu.me''),
     (''did:plc:vpkhqolt662uhesyj6nxm7ys'', ''why.bsky.team''),
     (''did:plc:yk4dd2qkboz2yv6tpubpc6co'', ''dholms.xyz'')]"

text \<open>\<^verbatim>\<open>s.startsWith(p)\<close>\<close>

definition startsWith :: "string \<Rightarrow> string \<Rightarrow> bool" where
  "startsWith s p = (take (length p) s = p)"

text \<open>
  Lines 41 to 54 of the fetcher: the identifier of the actor.
  \<^verbatim>\<open>
  if ($actor.startsWith('did:')) {
      did = $actor;
  } else {
      const response = await agent.rpc.get('com.atproto.identity.resolveHandle', {
          signal: $signal, params: { handle: $actor } });
      did = response.data.did;
  }
  \<close>
  The result is the calls made so far and, unless the call never settles, the identifier
  or the error thrown.
\<close>

definition resolve_did ::
  "('s, 'e) agent \<Rightarrow> 's \<Rightarrow> string \<Rightarrow> 's rpc_call list
     \<Rightarrow> 's rpc_call list \<times> ('e + string) option" where
  "resolve_did ag sg actor calls =
     (if startsWith actor ''did:''
      then (calls, Some (Inr actor))
      else (let (calls', response) = rpc_get_resolveHandle ag sg actor calls
            in (calls', await response)))"

text \<open>
  Lines 56 to 64: one call for each chunk, all issued before any of them is awaited.
  \<^verbatim>\<open>
  const promises = chunked(members, 30).map((chunk) => {
      return agent.rpc.get('app.bsky.graph.getRelationships', {
          signal: $signal,
          params: { actor: did, others: chunk.map((member) => member[0]) } });
  });
  \<close>
\<close>

fun issue_queries ::
  "('s, 'e) agent \<Rightarrow> 's \<Rightarrow> string \<Rightarrow> (string \<times> string) list list \<Rightarrow> 's rpc_call list
     \<Rightarrow> 's rpc_call list \<times> ('e, relation list) promise list" where
  "issue_queries ag sg d [] calls = (calls, [])"
| "issue_queries ag sg d (chunk # chunks) calls =
     (let (calls1, promise) = rpc_get_getRelationships ag sg d (map fst chunk) calls;
          (calls2, promises) = issue_queries ag sg d chunks calls1
      in (calls2, promise # promises))"

text \<open>
  Lines 67 to 73.
  \<^verbatim>\<open>
  const followed = responses.flatMap((response) => {
      return mapDefined(response.data.relationships, (relation) => {
          if (relation.$type === 'app.bsky.graph.defs#relationship' && relation.followedBy) {
              return relation.did;
          }
      });
  });
  \<close>
\<close>

definition followed_mapper :: "relation \<Rightarrow> string option" where
  "followed_mapper relation =
     (if dollar_type relation = ''app.bsky.graph.defs#relationship'' \<and> followedBy relation
      then Some (did relation)
      else None)"

definition followed_of :: "relation list list \<Rightarrow> string list" where
  "followed_of responses =
     concat (map (\<lambda>response. mapDefined response followed_mapper) responses)"

text \<open>
  The fetcher handed to \<^verbatim>\<open>createResource\<close> (lines 38 to 76). The roster is the
  constant \<open>members\<close> in the source and a parameter here; \<open>sg\<close> is the token that
  \<^verbatim>\<open>signal()\<close> gives this run. The result is the calls made and what the promise of
  the fetcher settles to: \<open>None\<close> when it never settles, \<open>Inl\<close> the error thrown.
\<close>

definition fetcher ::
  "('s, 'e) agent \<Rightarrow> (string \<times> string) list \<Rightarrow> 's \<Rightarrow> string \<Rightarrow> 's rpc_call list
     \<Rightarrow> 's rpc_call list \<times> ('e + string list) option" where
  "fetcher ag roster sg actor calls =
     (case resolve_did ag sg actor calls of
        (calls1, None) \<Rightarrow> (calls1, None)
      | (calls1, Some (Inl e)) \<Rightarrow> (calls1, Some (Inl e))
      | (calls1, Some (Inr d)) \<Rightarrow>
          (case chunked roster 30 of
             None \<Rightarrow> (calls1, None)
           | Some chunks \<Rightarrow>
               (let (calls2, promises) = issue_queries ag sg d chunks calls1
                in (calls2,
                    case Promise_all promises of
                      None \<Rightarrow> None
                    | Some (Inl e) \<Rightarrow> Some (Inl e)
                    | Some (Inr responses) \<Rightarrow> Some (Inr (followed_of responses))))))"

definition App_fetcher ::
  "('s, 'e) agent \<Rightarrow> 's \<Rightarrow> string \<Rightarrow> 's rpc_call list
     \<Rightarrow> 's rpc_call list \<times> ('e + string list) option" where
  "App_fetcher ag = fetcher ag members"

section \<open>The selector\<close>

text \<open>
  The resource that \<^verbatim>\<open>createResource\<close> returns is an object of the view library. The
  code reads two of its fields: the state tag, a string, and \<^verbatim>\<open>latest\<close>, the result
  of the last lookup that completed. They are the fields of the record, and a resource is
  a parameter of what follows.
\<close>

record resource =
  state :: string
  latest :: "string list"

definition EMPTY_ARRAY :: "'a list" where
  "EMPTY_ARRAY = []"

text \<open>\<^verbatim>\<open>array.includes(x)\<close>\<close>

definition array_includes :: "'a list \<Rightarrow> 'a \<Rightarrow> bool" where
  "array_includes array x = (x \<in> set array)"

text \<open>
  \<^verbatim>\<open>createSelector(source, fn)\<close> gives a function of a key that is \<^verbatim>\<open>fn(key, source())\<close>
  at every moment.
\<close>

definition createSelector :: "(unit \<Rightarrow> 'u) \<Rightarrow> ('k \<Rightarrow> 'u \<Rightarrow> bool) \<Rightarrow> 'k \<Rightarrow> bool" where
  "createSelector source fn key = fn key (source ())"

text \<open>
  \<^verbatim>\<open>
  const isFollowed = createSelector<DID[], DID>(
      () => (resource.state === 'ready' ? resource.latest : EMPTY_ARRAY),
      (did, array) => array.includes(did),
  );
  \<close>
\<close>

definition isFollowed :: "resource \<Rightarrow> string \<Rightarrow> bool" where
  "isFollowed resource =
     createSelector
       (\<lambda>_. if state resource = ''ready'' then latest resource else EMPTY_ARRAY)
       (\<lambda>did array. array_includes array did)"

section \<open>Example services\<close>

text \<open>
  Services for the examples below. \<open>agent_carol\<close> answers as in the end-to-end scenario:
  the handle resolves to \<open>did:3\<close>, and every relationship query returns a followed-by
  entry, an entry that is not followed-by, and an entry of another shape.
  \<open>agent_two_batches\<close> resolves the handle and answers the first and the second query
  with different entries. \<open>agent_second_fails\<close> fulfils the first call it receives and
  rejects every later one; \<open>agent_first_fails\<close> rejects the first call and fulfils the
  later ones.
\<close>

definition agent_carol :: "(unit, string) agent" where
  "agent_carol =
     \<lparr>resolveHandle_reply = (\<lambda>k sg handle. Fulfilled 1 ''did:3''),
      getRelationships_reply = (\<lambda>k sg actor others. Fulfilled 2
        [\<lparr>dollar_type = ''app.bsky.graph.defs#relationship'', did = ''did:1'', followedBy = True\<rparr>,
         \<lparr>dollar_type = ''app.bsky.graph.defs#relationship'', did = ''did:2'', followedBy = False\<rparr>,
         \<lparr>dollar_type = ''app.bsky.graph.defs#notFoundActor'', did = ''did:4'', followedBy = True\<rparr>])\<rparr>"

definition agent_second_fails :: "(unit, string) agent" where
  "agent_second_fails =
     \<lparr>resolveHandle_reply = (\<lambda>k sg handle. Pending),
      getRelationships_reply = (\<lambda>k sg actor others.
        if k = 0 then Fulfilled 2 [] else Rejected 1 ''boom'')\<rparr>"

definition agent_two_batches :: "(unit, string) agent" where
  "agent_two_batches =
     \<lparr>resolveHandle_reply = (\<lambda>k sg handle. Fulfilled 1 ''did:3''),
      getRelationships_reply = (\<lambda>k sg actor others.
        if k = 1
        then Fulfilled 5
          [\<lparr>dollar_type = ''app.bsky.graph.defs#relationship'', did = ''did:a'', followedBy = True\<rparr>,
           \<lparr>dollar_type = ''app.bsky.graph.defs#relationship'', did = ''did:x'', followedBy = False\<rparr>]
        else Fulfilled 3
          [\<lparr>dollar_type = ''app.bsky.graph.defs#notFoundActor'', did = ''did:y'', followedBy = True\<rparr>,
           \<lparr>dollar_type = ''app.bsky.graph.defs#relationship'', did = ''did:b'', followedBy = True\<rparr>])\<rparr>"

definition agent_first_fails :: "(unit, string) agent" where
  "agent_first_fails =
     \<lparr>resolveHandle_reply = (\<lambda>k sg handle. Pending),
      getRelationships_reply = (\<lambda>k sg actor others.
        if k = 0 then Rejected 1 ''boom''
        else Fulfilled 2
          [\<lparr>dollar_type = ''app.bsky.graph.defs#relationship'', did = ''did:b'', followedBy = True\<rparr>])\<rparr>"

section \<open>The batching utility\<close>

lemma ceil_less_iff:
  assumes "0 < n"
  shows "j < (len + n - 1) div n \<longleftrightarrow> j * n < (len::nat)"
proof -
  have "j < (len + n - 1) div n \<longleftrightarrow> Suc j \<le> (len + n - 1) div n" by auto
  also have "\<dots> \<longleftrightarrow> Suc j * n \<le> len + n - 1"
    using assms by (simp add: less_eq_div_iff_mult_less_eq)
  also have "\<dots> \<longleftrightarrow> j * n < len" using assms by auto
  finally show ?thesis .
qed

lemma array_slice_nat:
  "array_slice arr (int p) (int p + int n) = take n (drop p arr)"
  by (auto simp: array_slice_def Let_def min_def)

lemma chunked_loop_step:
  "p < length arr \<Longrightarrow>
   chunked_loop arr (int n) (int p) (int (length arr)) chunks =
   chunked_loop arr (int n) (int (p + n)) (int (length arr)) (chunks @ [take n (drop p arr)])"
  by (subst chunked_loop.simps) (simp add: array_slice_nat)

lemma chunked_loop_exit:
  "\<not> i < il \<Longrightarrow> chunked_loop arr sz i il chunks = Some chunks"
  by (subst chunked_loop.simps) simp

text \<open>
  With a positive size the loop leaves after \<open>\<lceil>length arr / n\<rceil>\<close> rounds, and round
  \<open>k\<close> pushes the \<open>n\<close> elements from position \<open>k * n\<close> on (fewer at the end).
\<close>

lemma chunked_loop_upt:
  assumes n: "0 < n" and j: "j \<le> (length arr + n - 1) div n"
  shows "chunked_loop arr (int n) (int (j * n)) (int (length arr)) chunks =
           Some (chunks @ map (\<lambda>k. take n (drop (k * n) arr)) [j..<(length arr + n - 1) div n])"
  using j
proof (induction "(length arr + n - 1) div n - j" arbitrary: j chunks)
  case 0
  then have eq: "j = (length arr + n - 1) div n" by simp
  then have "\<not> j * n < length arr" using ceil_less_iff [OF n, of j "length arr"] by simp
  then have "\<not> int (j * n) < int (length arr)" by linarith
  then have "chunked_loop arr (int n) (int (j * n)) (int (length arr)) chunks = Some chunks"
    by (rule chunked_loop_exit)
  then show ?case using eq by simp
next
  case (Suc d)
  then have lt: "j < (length arr + n - 1) div n" by simp
  then have p: "j * n < length arr" using ceil_less_iff [OF n] by simp
  have "chunked_loop arr (int n) (int (j * n)) (int (length arr)) chunks =
        chunked_loop arr (int n) (int (Suc j * n)) (int (length arr))
          (chunks @ [take n (drop (j * n) arr)])"
    using chunked_loop_step [OF p, of n chunks] by (simp add: add.commute)
  also have "\<dots> = Some ((chunks @ [take n (drop (j * n) arr)]) @
       map (\<lambda>k. take n (drop (k * n) arr)) [Suc j..<(length arr + n - 1) div n])"
    using Suc(1) [of "Suc j"] Suc(2) lt by simp
  finally show ?case using lt by (simp add: upt_conv_Cons)
qed

lemma chunked_pos:
  assumes "0 < n"
  shows "chunked arr (int n) =
           Some (map (\<lambda>k. take n (drop (k * n) arr)) [0..<(length arr + n - 1) div n])"
  using chunked_loop_upt [OF assms, of 0 arr "[]"] by (simp add: chunked_def)

lemma concat_chunks_from:
  assumes n: "0 < n"
  shows "j \<le> (length arr + n - 1) div n \<Longrightarrow>
    concat (map (\<lambda>k. take n (drop (k * n) arr)) [j..<(length arr + n - 1) div n]) =
    drop (j * n) arr"
proof (induction "(length arr + n - 1) div n - j" arbitrary: j)
  case 0
  then have eq: "j = (length arr + n - 1) div n" by simp
  then have "\<not> j * n < length arr" using ceil_less_iff [OF n, of j "length arr"] by simp
  then show ?case using eq by simp
next
  case (Suc d)
  then have lt: "j < (length arr + n - 1) div n" by simp
  have "concat (map (\<lambda>k. take n (drop (k * n) arr)) [Suc j..<(length arr + n - 1) div n]) =
        drop (Suc j * n) arr"
    using Suc(1) [of "Suc j"] Suc(2) lt by simp
  moreover have "take n (drop (j * n) arr) @ drop (Suc j * n) arr = drop (j * n) arr"
    by (metis add.commute append_take_drop_id drop_drop mult_Suc)
  ultimately show ?case using lt by (simp add: upt_conv_Cons del: mult_Suc)
qed

lemma full_chunk_length:
  assumes n: "0 < n" and k: "Suc k < (length arr + n - 1) div n"
  shows "length (take n (drop (k * n) arr)) = n"
proof -
  have "Suc k * n < length arr" using ceil_less_iff [OF n, of "Suc k" "length arr"] k by simp
  then show ?thesis by simp
qed

text \<open>
  Claim C2. For every list \<open>S\<close> and every positive integer \<open>n\<close>, \<open>chunked S n\<close> returns
  chunks whose concatenation, in order, is \<open>S\<close>; every chunk but the last has length
  \<open>n\<close>; and chunk \<open>k\<close> is the run of \<open>S\<close> that starts at position \<open>k * n\<close>, so the chunks
  are contiguous pieces of \<open>S\<close> in the original order.
\<close>

theorem chunked_roundtrip:
  assumes "0 < n"
  shows "\<exists>cs. chunked S n = Some cs \<and> concat cs = S
           \<and> (\<forall>k. Suc k < length cs \<longrightarrow> length (cs ! k) = nat n)
           \<and> (\<forall>k < length cs. cs ! k = take (nat n) (drop (k * nat n) S))"
proof -
  define m where "m = nat n"
  then have m: "0 < m" and n: "n = int m" using assms by simp_all
  let ?cs = "map (\<lambda>k. take m (drop (k * m) S)) [0..<(length S + m - 1) div m]"
  have "chunked S n = Some ?cs" unfolding n by (rule chunked_pos [OF m])
  moreover have "concat ?cs = S" using concat_chunks_from [OF m, of 0 S] by simp
  moreover have "\<forall>k. Suc k < length ?cs \<longrightarrow> length (?cs ! k) = nat n"
    using full_chunk_length [OF m, of _ S] by (simp add: n)
  moreover have "\<forall>k < length ?cs. ?cs ! k = take (nat n) (drop (k * nat n) S)"
    by (simp add: n)
  ultimately show ?thesis by blast
qed

theorem chunked_roundtrip_witness:
  "(0::int) < 2 \<and> (\<exists>cs. chunked [1, 2, 3, 4, 5 :: nat] 2 = Some cs \<and> concat cs = [1, 2, 3, 4, 5]
      \<and> (\<forall>k. Suc k < length cs \<longrightarrow> length (cs ! k) = nat 2)
      \<and> (\<forall>k < length cs. cs ! k = take (nat 2) (drop (k * nat 2) [1, 2, 3, 4, 5])))"
proof -
  have h: "(0::int) < 2" by simp
  show ?thesis using h chunked_roundtrip [OF h, of "[1, 2, 3, 4, 5 :: nat]"] by simp
qed

subsection \<open>The loop with the length limit\<close>

lemma num_le_zero_cases:
  "num_le n (Finite 0) \<longleftrightarrow> n = NegInfinity \<or> (\<exists>x. n = Finite x \<and> x \<le> 0)"
  by (cases n) auto

lemma num_ge_cases:
  "num_le (Finite c) n \<longleftrightarrow> n = Infinity \<or> (\<exists>x. n = Finite x \<and> c \<le> x)"
  by (cases n) auto

lemma num_add_nonpos:
  "num_le i (Finite 0) \<Longrightarrow> num_le s (Finite 0) \<Longrightarrow> num_le (num_add i s) (Finite 0)"
  by (auto simp: num_le_zero_cases)

lemma nonpos_less_length:
  "num_le i (Finite 0) \<Longrightarrow> 0 < L \<Longrightarrow> num_less i (Finite (real L))"
  by (auto simp: num_le_zero_cases)

lemma chunked_limited_loop_RangeError:
  assumes "num_le size' (Finite 0)" and "0 < L"
  shows "num_le i (Finite 0) \<Longrightarrow>
         chunked_limited_loop arr size' i (Finite (real L)) chunks = Inl RangeError"
proof (induction "max_array_length - length chunks" arbitrary: i chunks)
  case 0
  then have "\<not> length chunks < max_array_length" by simp
  then show ?case
    using nonpos_less_length [OF 0(2) assms(2)]
    by (subst chunked_limited_loop.simps) (simp add: array_push_def)
next
  case (Suc d)
  then have lt: "length chunks < max_array_length" by simp
  let ?chunks' = "chunks @ [slice_number arr i (num_add i size')]"
  have "d = max_array_length - length ?chunks'" using Suc(2) by simp
  then have "chunked_limited_loop arr size' (num_add i size') (Finite (real L)) ?chunks' =
      Inl RangeError"
    using Suc(1) num_add_nonpos [OF Suc(3) assms(1)] by blast
  then show ?case
    using nonpos_less_length [OF Suc(3) assms(2)] lt
    by (subst chunked_limited_loop.simps) (simp add: array_push_def)
qed

lemma num_add_progress:
  "num_le (Finite 1) s \<Longrightarrow> num_le (Finite (real k)) i \<Longrightarrow>
   num_le (Finite (real (Suc k))) (num_add i s)"
  by (auto simp: num_ge_cases)

lemma less_length_bound:
  "num_le (Finite (real k)) i \<Longrightarrow> num_less i (Finite (real L)) \<Longrightarrow> k < L"
  by (cases i) auto

lemma chunked_limited_loop_returns:
  assumes "num_le (Finite 1) size'" and "L \<le> max_array_length"
  shows "num_le (Finite (real (length chunks))) i \<Longrightarrow>
         \<exists>cs. chunked_limited_loop arr size' i (Finite (real L)) chunks = Inr cs"
proof (induction "L - length chunks" arbitrary: i chunks rule: less_induct)
  case less
  show ?case
  proof (cases "num_less i (Finite (real L))")
    case False
    then show ?thesis by (subst chunked_limited_loop.simps) simp
  next
    case True
    then have k: "length chunks < L" using less_length_bound [OF less(2)] by simp
    let ?chunks' = "chunks @ [slice_number arr i (num_add i size')]"
    have "num_le (Finite (real (length ?chunks'))) (num_add i size')"
      using num_add_progress [OF assms(1) less(2)] by simp
    moreover have "L - length ?chunks' < L - length chunks" using k by simp
    ultimately have "\<exists>cs. chunked_limited_loop arr size' (num_add i size') (Finite (real L))
        ?chunks' = Inr cs"
      using less(1) by blast
    then show ?thesis
      using True k assms(2)
      by (subst chunked_limited_loop.simps) (simp add: array_push_def)
  qed
qed

lemma chunked_limited_empty: "chunked_limited [] size' = Inr []"
  by (cases size') (simp_all add: chunked_limited_def chunked_limited_loop.simps)

lemma relative_index_nat:
  "relative_index len (ToIntegerOrInfinity (Finite (real q))) = min q len"
  by simp

lemma slice_number_nat:
  "slice_number arr (Finite (real p)) (Finite (real (p + n))) = take n (drop p arr)"
proof (cases "p \<le> length arr")
  case True
  then show ?thesis
    unfolding slice_number_def Let_def relative_index_nat by (simp add: min_def)
next
  case False
  then show ?thesis
    unfolding slice_number_def Let_def relative_index_nat by (simp add: min_def)
qed

lemma chunked_limited_loop_exit:
  "\<not> num_less i il \<Longrightarrow> chunked_limited_loop arr sz i il chunks = Inr chunks"
  by (subst chunked_limited_loop.simps) simp

text \<open>
  For a positive integer size on an array the limit is never met, and the loop with the
  limit gives the chunks that the loop at integer sizes gives.
\<close>

lemma chunked_limited_loop_upt:
  assumes n: "0 < n" and len: "length arr \<le> max_array_length"
    and j: "j \<le> (length arr + n - 1) div n" and c: "length chunks = j"
  shows "chunked_limited_loop arr (Finite (real n)) (Finite (real (j * n)))
           (Finite (real (length arr))) chunks =
         Inr (chunks @ map (\<lambda>k. take n (drop (k * n) arr)) [j..<(length arr + n - 1) div n])"
  using j c
proof (induction "(length arr + n - 1) div n - j" arbitrary: j chunks)
  case 0
  then have eq: "j = (length arr + n - 1) div n" by simp
  then have "\<not> j * n < length arr" using ceil_less_iff [OF n, of j "length arr"] by simp
  then have "\<not> num_less (Finite (real (j * n))) (Finite (real (length arr)))"
    by (simp only: num_less.simps of_nat_less_iff not_False_eq_True)
  then have "chunked_limited_loop arr (Finite (real n)) (Finite (real (j * n)))
           (Finite (real (length arr))) chunks = Inr chunks"
    by (rule chunked_limited_loop_exit)
  then show ?case using eq by simp
next
  case (Suc d)
  then have lt: "j < (length arr + n - 1) div n" by simp
  then have p: "j * n < length arr" using ceil_less_iff [OF n] by simp
  have "j \<le> j * n" using n by simp
  then have room: "length chunks < max_array_length" using p len Suc(4) by linarith
  let ?chunks' = "chunks @ [take n (drop (j * n) arr)]"
  have s: "num_add (Finite (real (j * n))) (Finite (real n)) = Finite (real (Suc j * n))"
    by (simp add: algebra_simps)
  have sl: "slice_number arr (Finite (real (j * n))) (Finite (real (Suc j * n))) =
      take n (drop (j * n) arr)"
    using slice_number_nat [of arr "j * n" n] by (simp add: add.commute)
  have "chunked_limited_loop arr (Finite (real n)) (Finite (real (Suc j * n)))
           (Finite (real (length arr))) ?chunks' =
        Inr (?chunks' @ map (\<lambda>k. take n (drop (k * n) arr)) [Suc j..<(length arr + n - 1) div n])"
    using Suc(1) [of "Suc j" ?chunks'] Suc(2) Suc(4) lt by simp
  then show ?case
    using p room lt
    by (subst chunked_limited_loop.simps)
       (simp only: s sl num_less.simps of_nat_less_iff if_True array_push_def sum.case
          upt_conv_Cons list.map append.simps append_assoc)
qed

lemma chunked_limited_pos:
  assumes "0 < n" and "length arr \<le> max_array_length"
  shows "chunked_limited arr (Finite (real n)) =
           Inr (map (\<lambda>k. take n (drop (k * n) arr)) [0..<(length arr + n - 1) div n])"
  using chunked_limited_loop_upt [OF assms, of 0 "[]"] by (simp add: chunked_limited_def)

lemma chunked_limited_agrees:
  assumes "0 < n" and "length arr \<le> max_array_length"
  shows "chunked_limited arr (Finite (real_of_int n)) = Inr cs \<longleftrightarrow> chunked arr n = Some cs"
proof -
  have "0 < nat n" and n: "n = int (nat n)" using assms(1) by simp_all
  then show ?thesis
    using chunked_limited_pos [of "nat n" arr] chunked_pos [of "nat n" arr] assms(2)
    by (metis Inr_inject of_int_of_nat_eq option.inject)
qed

text \<open>
  Claim C10, as the code has it. \<open>chunked arr size\<close> ends for every input. It returns
  chunks for every array (a list of at most \<open>2\<^sup>3\<^sup>2 - 1\<close> elements) when the size is at
  least 1, and no chunks for the empty array whatever the size. For a non-empty array and a size of 0 or less the index never reaches
  the length of the array, so \<open>chunked\<close> returns nothing: it pushes chunks until the array
  of chunks is full, and the next push throws \<^verbatim>\<open>RangeError\<close>.
\<close>

theorem chunked_limited_outcome:
  "(num_le (Finite 1) size' \<and> length (arr :: 'a list) \<le> max_array_length
       \<longrightarrow> (\<exists>cs. chunked_limited arr size' = Inr cs))
   \<and> chunked_limited ([] :: 'a list) size' = Inr []
   \<and> (arr \<noteq> [] \<and> num_le size' (Finite 0) \<longrightarrow> chunked_limited arr size' = Inl RangeError)"
proof (intro conjI impI)
  assume "num_le (Finite 1) size' \<and> length arr \<le> max_array_length"
  then show "\<exists>cs. chunked_limited arr size' = Inr cs"
    using chunked_limited_loop_returns [of size' "length arr" "[]" "Finite 0" arr]
    by (simp add: chunked_limited_def)
next
  show "chunked_limited ([] :: 'a list) size' = Inr []" by (rule chunked_limited_empty)
next
  assume "arr \<noteq> [] \<and> num_le size' (Finite 0)"
  then show "chunked_limited arr size' = Inl RangeError"
    using chunked_limited_loop_RangeError [of size' "length arr" "Finite 0" arr "[]"]
    by (simp add: chunked_limited_def)
qed

theorem chunked_limited_outcome_witness:
  "(\<exists>cs. chunked_limited [1, 2, 3 :: nat] (Finite 2) = Inr cs)
   \<and> (\<exists>cs. chunked_limited [1, 2, 3 :: nat] (Finite (3 / 2)) = Inr cs)
   \<and> (\<exists>cs. chunked_limited [1, 2, 3 :: nat] Infinity = Inr cs)
   \<and> chunked_limited ([] :: nat list) (Finite 0) = Inr []
   \<and> chunked_limited [1 :: nat] (Finite 0) = Inl RangeError
   \<and> chunked_limited [1, 2 :: nat] (Finite (- 3)) = Inl RangeError
   \<and> chunked_limited [1, 2 :: nat] NegInfinity = Inl RangeError"
  using chunked_limited_outcome [of "Finite 2" "[1, 2, 3 :: nat]"]
    chunked_limited_outcome [of "Finite (3 / 2)" "[1, 2, 3 :: nat]"]
    chunked_limited_outcome [of Infinity "[1, 2, 3 :: nat]"]
    chunked_limited_outcome [of "Finite 0" "[1 :: nat]"]
    chunked_limited_outcome [of "Finite (- 3)" "[1, 2 :: nat]"]
    chunked_limited_outcome [of NegInfinity "[1, 2 :: nat]"]
  by (simp add: max_array_length_def)

text \<open>
  The claim as it was stated says that for a non-empty array and a size of 0 or less
  \<open>chunked\<close> does not end and raises no error. On the array \<open>[1]\<close> with size 0 it ends
  with \<^verbatim>\<open>RangeError\<close>.
\<close>

theorem chunked_raises_counterexample:
  "chunked_limited [1 :: nat] (Finite 0) = Inl RangeError"
  using chunked_limited_loop_RangeError [of "Finite 0" 1 "Finite 0" "[1 :: nat]" "[]"]
  by (simp add: chunked_limited_def)

section \<open>The defined-value mapper\<close>

lemma mapDefined_loop_eq:
  "idx \<le> len \<Longrightarrow> len = length array \<Longrightarrow>
   mapDefined_loop array mapper idx len mapped =
   mapped @ List.map_filter mapper (drop idx array)"
proof (induction array mapper idx len mapped rule: mapDefined_loop.induct)
  case (1 array mapper idx len mapped)
  show ?case
  proof (cases "idx < len")
    case True
    then have d: "drop idx array = array ! idx # drop (Suc idx) array"
      using 1(3) by (simp add: Cons_nth_drop_Suc)
    show ?thesis
      using True 1(1) 1(3) d
      by (subst mapDefined_loop.simps) (simp split: option.splits)
  next
    case False
    then show ?thesis using 1(2,3) by (subst mapDefined_loop.simps) simp
  qed
qed

lemma mapDefined_map_filter: "mapDefined array mapper = List.map_filter mapper array"
  by (simp add: mapDefined_def mapDefined_loop_eq)

text \<open>
  Claim C3. For every list and every transform \<open>f\<close>, \<open>mapDefined\<close> returns the present
  values \<open>f item\<close> of exactly the items where \<open>f\<close> gave one, in the order of the input;
  so its result is no longer than the input and keeps the relative order of what it
  keeps.
\<close>

theorem mapDefined_collects:
  "mapDefined items f = map (\<lambda>item. the (f item)) (filter (\<lambda>item. f item \<noteq> None) items)
   \<and> length (mapDefined items f) \<le> length items"
proof -
  have "mapDefined items f = map (\<lambda>item. the (f item)) (filter (\<lambda>item. f item \<noteq> None) items)"
    by (simp add: mapDefined_map_filter map_filter_def comp_def)
  then show ?thesis by simp
qed

theorem mapDefined_collects_witness:
  "mapDefined [1, 2, 3, 4, 5 :: nat] (\<lambda>x. if even x then Some (10 * x) else None) = [20, 40]"
  using mapDefined_collects [of "[1, 2, 3, 4, 5 :: nat]" "\<lambda>x. if even x then Some (10 * x) else None"]
  by simp

section \<open>Promises\<close>

lemma first_rejection_None:
  "first_rejection ps = None \<longleftrightarrow> (\<forall>t e. Rejected t e \<notin> set ps)"
  by (induction ps rule: first_rejection.induct) (auto split: option.splits)

lemma first_rejection_Some:
  "first_rejection ps = Some (t, e) \<Longrightarrow>
     Rejected t e \<in> set ps \<and> (\<forall>t' e'. Rejected t' e' \<in> set ps \<longrightarrow> t \<le> t')"
proof (induction ps arbitrary: t e)
  case Nil
  then show ?case by simp
next
  case (Cons p ps)
  show ?case
  proof (cases p)
    case Pending
    then show ?thesis using Cons by simp
  next
    case (Fulfilled t0 v)
    then show ?thesis using Cons by simp
  next
    case (Rejected t0 e0)
    then show ?thesis using Cons
      by (cases "first_rejection ps")
         (fastforce simp: first_rejection_None split: if_splits)+
  qed
qed

lemma fulfilled_values_nth:
  "fulfilled_values ps = Some vs \<longleftrightarrow>
     length vs = length ps \<and> (\<forall>k < length ps. \<exists>t. ps ! k = Fulfilled t (vs ! k))"
proof (induction ps arbitrary: vs)
  case Nil
  then show ?case by auto
next
  case (Cons p ps)
  show ?case
  proof (cases p)
    case Pending
    then show ?thesis by (cases vs) force+
  next
    case (Rejected t e)
    then show ?thesis by (cases vs) force+
  next
    case (Fulfilled t v)
    show ?thesis
    proof (cases vs)
      case Nil
      then show ?thesis using Fulfilled by (auto split: option.splits)
    next
      case (Cons w ws)
      have "(\<forall>k < Suc (length ps). \<exists>t'. (p # ps) ! k = Fulfilled t' ((w # ws) ! k)) \<longleftrightarrow>
            (\<exists>t'. p = Fulfilled t' w) \<and> (\<forall>k < length ps. \<exists>t'. ps ! k = Fulfilled t' (ws ! k))"
        by (auto simp: less_Suc_eq_0_disj)
      then show ?thesis
        using Fulfilled Cons Cons.IH [of ws] by (auto split: option.splits)
    qed
  qed
qed

lemma fulfilled_values_no_rejection:
  "fulfilled_values ps = Some vs \<Longrightarrow> first_rejection ps = None"
  by (induction ps arbitrary: vs rule: fulfilled_values.induct) (auto split: option.splits)

lemma Promise_all_Inr:
  "Promise_all ps = Some (Inr vs) \<longleftrightarrow> fulfilled_values ps = Some vs"
  using fulfilled_values_no_rejection [of ps vs]
  by (auto simp: Promise_all_def split: option.splits)

lemma Promise_all_rejected:
  assumes "Rejected t e \<in> set ps"
  shows "\<exists>t' e'. Rejected t' e' \<in> set ps \<and> t' \<le> t \<and> Promise_all ps = Some (Inl e')"
proof -
  from assms have "first_rejection ps \<noteq> None" by (auto simp: first_rejection_None)
  then obtain t' e' where fr: "first_rejection ps = Some (t', e')" by auto
  then have "Rejected t' e' \<in> set ps" and "t' \<le> t"
    using first_rejection_Some [OF fr] assms by auto
  moreover have "Promise_all ps = Some (Inl e')" using fr by (simp add: Promise_all_def)
  ultimately show ?thesis by blast
qed

lemma Promise_all_first:
  assumes "Rejected t e \<in> set ps"
    and "\<forall>t' e'. Rejected t' e' \<in> set ps \<longrightarrow> t < t' \<or> (t' = t \<and> e' = e)"
  shows "Promise_all ps = Some (Inl e)"
proof -
  from Promise_all_rejected [OF assms(1)] obtain t' e'
    where "Rejected t' e' \<in> set ps" and "t' \<le> t" and res: "Promise_all ps = Some (Inl e')"
    by blast
  with assms(2) have "e' = e" by fastforce
  with res show ?thesis by simp
qed

section \<open>The stages of the fetcher\<close>

lemma issue_queries_calls:
  "fst (issue_queries ag sg d chunks calls) =
     calls @ map (\<lambda>chunk. GetRelationships sg d (map fst chunk)) chunks"
  by (induction chunks arbitrary: calls)
     (simp_all add: rpc_get_getRelationships_def split_beta)

lemma issue_queries_length:
  "length (snd (issue_queries ag sg d chunks calls)) = length chunks"
  by (induction chunks arbitrary: calls)
     (simp_all add: rpc_get_getRelationships_def split_beta)

lemma issue_queries_nth:
  "k < length chunks \<Longrightarrow>
   snd (issue_queries ag sg d chunks calls) ! k =
     getRelationships_reply ag (length calls + k) sg d (map fst (chunks ! k))"
proof (induction chunks arbitrary: calls k)
  case Nil
  then show ?case by simp
next
  case (Cons chunk chunks)
  show ?case
  proof (cases k)
    case 0
    then show ?thesis by (simp add: rpc_get_getRelationships_def split_beta)
  next
    case (Suc k')
    then have "k' < length chunks" using Cons.prems by simp
    then show ?thesis
      using Cons.IH [of k' "calls @ [GetRelationships sg d (map fst chunk)]"] Suc
      by (simp add: rpc_get_getRelationships_def split_beta)
  qed
qed

lemma issue_queries_rejected:
  "Rejected t e \<in> set (snd (issue_queries ag sg d chunks calls)) \<longleftrightarrow>
     (\<exists>k < length chunks.
        getRelationships_reply ag (length calls + k) sg d (map fst (chunks ! k)) = Rejected t e)"
  by (auto simp: in_set_conv_nth issue_queries_length issue_queries_nth)

lemma followed_of_eq:
  "followed_of responses =
     map did (filter (\<lambda>r. dollar_type r = ''app.bsky.graph.defs#relationship'' \<and> followedBy r)
       (concat responses))"
proof -
  have "mapDefined response followed_mapper =
      map did (filter (\<lambda>r. dollar_type r = ''app.bsky.graph.defs#relationship'' \<and> followedBy r)
        response)" for response
    by (induction response)
       (simp_all add: mapDefined_map_filter followed_mapper_def map_filter_simps)
  then show ?thesis
    by (simp add: followed_of_def map_concat filter_concat comp_def)
qed

lemma fetcher_unfold:
  assumes "resolve_did ag sg actor calls = (calls1, Some (Inr d))"
    and "chunked roster 30 = Some chunks"
    and "issue_queries ag sg d chunks calls1 = (calls2, promises)"
  shows "fetcher ag roster sg actor calls =
     (calls2, case Promise_all promises of
                None \<Rightarrow> None
              | Some (Inl e) \<Rightarrow> Some (Inl e)
              | Some (Inr responses) \<Rightarrow> Some (Inr (followed_of responses)))"
  using assms by (simp add: fetcher_def)

lemma chunked_30:
  "chunked roster 30 =
     Some (map (\<lambda>k. take 30 (drop (k * 30) roster)) [0..<(length roster + 29) div 30])"
  using chunked_pos [of 30 roster] by (simp add: add.commute)

lemma fetcher_snd:
  assumes "resolve_did ag sg actor calls = (calls1, Some (Inr d))"
    and "chunked roster 30 = Some chunks"
  shows "snd (fetcher ag roster sg actor calls) =
     (case Promise_all (snd (issue_queries ag sg d chunks calls1)) of
        None \<Rightarrow> None
      | Some (Inl e) \<Rightarrow> Some (Inl e)
      | Some (Inr responses) \<Rightarrow> Some (Inr (followed_of responses)))"
  using fetcher_unfold [OF assms surjective_pairing] by simp

lemma fetcher_Inr_resolved:
  assumes "snd (fetcher ag roster sg actor calls) = Some (Inr followed)"
  shows "\<exists>calls1 d. resolve_did ag sg actor calls = (calls1, Some (Inr d))"
  using assms
  by (cases "resolve_did ag sg actor calls")
     (auto simp: fetcher_def split: option.splits sum.splits)

lemma chunked_31:
  "chunked (replicate 31 (''did:m'', ''m'')) 30 =
     Some [replicate 30 (''did:m'', ''m''), [(''did:m'', ''m'')]]"
  by code_simp

lemma App_fetcher_one_call:
  "fst (App_fetcher agent_carol () ''did:plc:abc'' []) =
     [GetRelationships () ''did:plc:abc'' (map fst members)]"
  by code_simp

section \<open>The identifier of the actor\<close>

text \<open>
  Claim C4. For every actor string that starts with \<open>did:\<close>, the resolving step returns
  that string unchanged and makes no call: the list of calls is as it was.
\<close>

theorem resolve_did_passthrough:
  assumes "startsWith actor ''did:''"
  shows "resolve_did ag sg actor calls = (calls, Some (Inr actor))"
  using assms by (simp add: resolve_did_def)

theorem resolve_did_passthrough_witness:
  "startsWith ''did:plc:abc'' ''did:''
   \<and> resolve_did agent_carol () ''did:plc:abc'' [] = ([], Some (Inr ''did:plc:abc''))"
proof -
  have h: "startsWith ''did:plc:abc'' ''did:''" by (simp add: startsWith_def)
  show ?thesis using h resolve_did_passthrough [OF h, of agent_carol "()" "[]"] by simp
qed

text \<open>
  Claim C5. For every actor string that does not start with \<open>did:\<close>, the resolving step
  issues exactly one handle-resolution call, with that string as the handle, and its
  outcome is the outcome of that call: when the call is answered, the \<open>did\<close> of the
  response.
\<close>

theorem resolve_did_delegates:
  assumes "\<not> startsWith actor ''did:''"
  shows "fst (resolve_did ag sg actor calls) = calls @ [ResolveHandle sg actor]
       \<and> snd (resolve_did ag sg actor calls) = await (resolveHandle_reply ag (length calls) sg actor)
       \<and> (\<forall>t d. resolveHandle_reply ag (length calls) sg actor = Fulfilled t d
             \<longrightarrow> snd (resolve_did ag sg actor calls) = Some (Inr d))"
  using assms by (simp add: resolve_did_def rpc_get_resolveHandle_def)

theorem resolve_did_delegates_witness:
  "resolve_did \<lparr>resolveHandle_reply = (\<lambda>k sg h. Fulfilled 1 ''did:plc:xyz''),
                getRelationships_reply = (\<lambda>k sg a os. Pending :: (string, relation list) promise)\<rparr>
     () ''example.bsky.social'' []
   = ([ResolveHandle () ''example.bsky.social''], Some (Inr ''did:plc:xyz''))"
proof -
  have h: "\<not> startsWith ''example.bsky.social'' ''did:''" by (simp add: startsWith_def)
  show ?thesis
    using resolve_did_delegates [OF h,
        of "\<lparr>resolveHandle_reply = (\<lambda>k sg h. Fulfilled 1 ''did:plc:xyz''),
             getRelationships_reply = (\<lambda>k sg a os. Pending :: (string, relation list) promise)\<rparr>"
           "()" "[]"]
    by (simp add: prod_eq_iff)
qed

section \<open>The relationship queries\<close>

text \<open>
  Claim C6. For every roster, once the actor is resolved the fetcher issues exactly
  \<open>\<lceil>length roster / 30\<rceil>\<close> relationship queries, one for each chunk that \<open>chunked\<close>
  gives for size 30, each with the identifiers of its chunk as \<open>others\<close>; all of them are
  issued whatever the service answers to any of them. A roster of 45 members gives exactly
  two calls, of 30 and of 15 identifiers.
\<close>

theorem fetcher_one_query_per_batch:
  assumes "resolve_did ag sg actor calls = (calls1, Some (Inr d))"
  shows "\<exists>chunks. chunked roster 30 = Some chunks
         \<and> length chunks = (length roster + 29) div 30
         \<and> fst (fetcher ag roster sg actor calls) =
             calls1 @ map (\<lambda>chunk. GetRelationships sg d (map fst chunk)) chunks
         \<and> (length roster = 45 \<longrightarrow>
              (\<exists>others1 others2.
                 fst (fetcher ag roster sg actor calls) =
                   calls1 @ [GetRelationships sg d others1, GetRelationships sg d others2]
                 \<and> length others1 = 30 \<and> length others2 = 15))"
proof -
  let ?chunks = "map (\<lambda>k. take 30 (drop (k * 30) roster)) [0..<(length roster + 29) div 30]"
  have c: "chunked roster 30 = Some ?chunks" by (rule chunked_30)
  have f: "fst (fetcher ag roster sg actor calls) =
             calls1 @ map (\<lambda>chunk. GetRelationships sg d (map fst chunk)) ?chunks"
    using fetcher_unfold [OF assms c surjective_pairing]
    by (simp add: issue_queries_calls)
  have "length roster = 45 \<longrightarrow>
          fst (fetcher ag roster sg actor calls) =
            calls1 @ [GetRelationships sg d (map fst (take 30 roster)),
                      GetRelationships sg d (map fst (drop 30 roster))]
          \<and> length (map fst (take 30 roster)) = 30 \<and> length (map fst (drop 30 roster)) = 15"
  proof
    assume l: "length roster = 45"
    then have "[0..<(length roster + 29) div 30] = [0, 1]" by (simp add: upt_rec)
    then show "fst (fetcher ag roster sg actor calls) =
            calls1 @ [GetRelationships sg d (map fst (take 30 roster)),
                      GetRelationships sg d (map fst (drop 30 roster))]
          \<and> length (map fst (take 30 roster)) = 30 \<and> length (map fst (drop 30 roster)) = 15"
      using f l by simp
  qed
  then show ?thesis using c f by (intro exI [of _ ?chunks]) auto
qed

theorem fetcher_one_query_per_batch_witness:
  "\<exists>others1 others2.
     fst (fetcher agent_carol (replicate 45 (''did:m'', ''m'')) () ''did:plc:abc'' []) =
       [GetRelationships () ''did:plc:abc'' others1, GetRelationships () ''did:plc:abc'' others2]
     \<and> length others1 = 30 \<and> length others2 = 15"
proof -
  have h: "resolve_did agent_carol () ''did:plc:abc'' [] = ([], Some (Inr ''did:plc:abc''))"
    by (simp add: resolve_did_def startsWith_def)
  show ?thesis
    using fetcher_one_query_per_batch [OF h, of "replicate 45 (''did:m'', ''m'')"] by auto
qed

text \<open>
  Claim C7. If the service rejects any relationship query, the fetcher fails, with the
  error of a rejected query that no other rejected query precedes (so with that query's
  error when it is the only one or strictly the first to fail), and gives no result; a
  result is given only when the service has fulfilled every query.
\<close>

theorem fetcher_all_or_nothing:
  assumes "resolve_did ag sg actor calls = (calls1, Some (Inr d))"
    and "chunked roster 30 = Some chunks"
  shows "(\<forall>k t e. k < length chunks
              \<and> getRelationships_reply ag (length calls1 + k) sg d (map fst (chunks ! k)) = Rejected t e
            \<longrightarrow> (\<exists>k' t' e'. k' < length chunks
                  \<and> getRelationships_reply ag (length calls1 + k') sg d (map fst (chunks ! k'))
                      = Rejected t' e'
                  \<and> t' \<le> t
                  \<and> snd (fetcher ag roster sg actor calls) = Some (Inl e')))
       \<and> (\<forall>k t e. k < length chunks
              \<and> getRelationships_reply ag (length calls1 + k) sg d (map fst (chunks ! k)) = Rejected t e
              \<and> (\<forall>k' t' e'. k' < length chunks
                    \<and> getRelationships_reply ag (length calls1 + k') sg d (map fst (chunks ! k'))
                        = Rejected t' e'
                    \<longrightarrow> t < t' \<or> (t' = t \<and> e' = e))
            \<longrightarrow> snd (fetcher ag roster sg actor calls) = Some (Inl e))
       \<and> (\<forall>followed. snd (fetcher ag roster sg actor calls) = Some (Inr followed)
            \<longrightarrow> (\<forall>k < length chunks. \<exists>t response.
                   getRelationships_reply ag (length calls1 + k) sg d (map fst (chunks ! k))
                     = Fulfilled t response))"
proof -
  let ?promises = "snd (issue_queries ag sg d chunks calls1)"
  let ?reply = "\<lambda>k. getRelationships_reply ag (length calls1 + k) sg d (map fst (chunks ! k))"
  note f = fetcher_snd [OF assms]
  have rej: "Rejected t e \<in> set ?promises \<longleftrightarrow> (\<exists>k < length chunks. ?reply k = Rejected t e)"
    for t e by (rule issue_queries_rejected)
  have first: "\<exists>k' t' e'. k' < length chunks \<and> ?reply k' = Rejected t' e' \<and> t' \<le> t
                 \<and> snd (fetcher ag roster sg actor calls) = Some (Inl e')"
    if "k < length chunks" and "?reply k = Rejected t e" for k t e
  proof -
    from that have "Rejected t e \<in> set ?promises" using rej by blast
    from Promise_all_rejected [OF this] obtain t' e'
      where "Rejected t' e' \<in> set ?promises" and "t' \<le> t"
        and "Promise_all ?promises = Some (Inl e')" by blast
    then show ?thesis using rej f by auto
  qed
  have only: "snd (fetcher ag roster sg actor calls) = Some (Inl e)"
    if "k < length chunks" and "?reply k = Rejected t e"
      and m: "\<forall>k' t' e'. k' < length chunks \<and> ?reply k' = Rejected t' e'
                \<longrightarrow> t < t' \<or> (t' = t \<and> e' = e)" for k t e
  proof -
    from that have "Rejected t e \<in> set ?promises" using rej by blast
    moreover have "\<forall>t' e'. Rejected t' e' \<in> set ?promises \<longrightarrow> t < t' \<or> (t' = t \<and> e' = e)"
      using m rej by blast
    ultimately have "Promise_all ?promises = Some (Inl e)" by (rule Promise_all_first)
    then show ?thesis using f by simp
  qed
  have all: "\<forall>k < length chunks. \<exists>t response. ?reply k = Fulfilled t response"
    if "snd (fetcher ag roster sg actor calls) = Some (Inr followed)" for followed
  proof -
    from that f obtain responses where "Promise_all ?promises = Some (Inr responses)"
      by (auto split: option.splits sum.splits)
    then have "fulfilled_values ?promises = Some responses" by (simp add: Promise_all_Inr)
    then show ?thesis
      by (auto simp: fulfilled_values_nth issue_queries_length issue_queries_nth)
  qed
  show ?thesis using first only all by blast
qed

theorem fetcher_all_or_nothing_witness:
  "snd (fetcher agent_first_fails (replicate 31 (''did:m'', ''m'')) () ''did:plc:abc'' []) =
     Some (Inl ''boom'')
   \<and> snd (fetcher agent_second_fails (replicate 31 (''did:m'', ''m'')) () ''did:plc:abc'' []) =
     Some (Inl ''boom'')"
proof -
  have h1: "resolve_did agent_first_fails () ''did:plc:abc'' [] = ([], Some (Inr ''did:plc:abc''))"
    by (simp add: resolve_did_def startsWith_def)
  have h2: "resolve_did agent_second_fails () ''did:plc:abc'' [] = ([], Some (Inr ''did:plc:abc''))"
    by (simp add: resolve_did_def startsWith_def)
  have p1: "(0::nat) < length [replicate 30 (''did:m'', ''m''), [(''did:m'', ''m'')]]
      \<and> getRelationships_reply agent_first_fails (length ([] :: unit rpc_call list) + 0) ()
            ''did:plc:abc'' (map fst ([replicate 30 (''did:m'', ''m''), [(''did:m'', ''m'')]] ! 0))
          = Rejected 1 ''boom''
      \<and> (\<forall>k' t' e'. k' < length [replicate 30 (''did:m'', ''m''), [(''did:m'', ''m'')]]
            \<and> getRelationships_reply agent_first_fails (length ([] :: unit rpc_call list) + k') ()
                 ''did:plc:abc''
                 (map fst ([replicate 30 (''did:m'', ''m''), [(''did:m'', ''m'')]] ! k'))
               = Rejected t' e'
            \<longrightarrow> 1 < t' \<or> (t' = 1 \<and> e' = ''boom''))"
    by (auto simp: agent_first_fails_def split: if_splits)
  have p2: "(1::nat) < length [replicate 30 (''did:m'', ''m''), [(''did:m'', ''m'')]]
      \<and> getRelationships_reply agent_second_fails (length ([] :: unit rpc_call list) + 1) ()
            ''did:plc:abc'' (map fst ([replicate 30 (''did:m'', ''m''), [(''did:m'', ''m'')]] ! 1))
          = Rejected 1 ''boom''
      \<and> (\<forall>k' t' e'. k' < length [replicate 30 (''did:m'', ''m''), [(''did:m'', ''m'')]]
            \<and> getRelationships_reply agent_second_fails (length ([] :: unit rpc_call list) + k') ()
                 ''did:plc:abc''
                 (map fst ([replicate 30 (''did:m'', ''m''), [(''did:m'', ''m'')]] ! k'))
               = Rejected t' e'
            \<longrightarrow> 1 < t' \<or> (t' = 1 \<and> e' = ''boom''))"
    by (auto simp: agent_second_fails_def split: if_splits)
  show ?thesis
    using fetcher_all_or_nothing [OF h1 chunked_31, THEN conjunct2, THEN conjunct1,
        rule_format, OF p1]
      fetcher_all_or_nothing [OF h2 chunked_31, THEN conjunct2, THEN conjunct1,
        rule_format, OF p2]
    by (rule conjI)
qed

text \<open>
  Claim C1. A lookup succeeds exactly when the actor is resolved and the service
  fulfils the query of every batch, and its result then holds exactly the identifiers of
  the entries of those responses, batch after batch, whose type discriminator is that of a
  relationship record and whose followed-by flag is true; an entry of another shape and a
  relationship entry whose flag is false add nothing.
\<close>

theorem fetcher_result_filter:
  "snd (fetcher ag roster sg actor calls) = Some (Inr followed) \<longleftrightarrow>
     (\<exists>calls1 d chunks responses.
         resolve_did ag sg actor calls = (calls1, Some (Inr d))
       \<and> chunked roster 30 = Some chunks
       \<and> length responses = length chunks
       \<and> (\<forall>k < length chunks. \<exists>t.
             getRelationships_reply ag (length calls1 + k) sg d (map fst (chunks ! k))
               = Fulfilled t (responses ! k))
       \<and> followed =
           map did (filter (\<lambda>relation. dollar_type relation = ''app.bsky.graph.defs#relationship''
                                      \<and> followedBy relation)
                      (concat responses)))"
proof
  assume a: "snd (fetcher ag roster sg actor calls) = Some (Inr followed)"
  from fetcher_Inr_resolved [OF a] obtain calls1 d
    where r: "resolve_did ag sg actor calls = (calls1, Some (Inr d))" by blast
  obtain chunks where c: "chunked roster 30 = Some chunks" using chunked_30 by blast
  let ?promises = "snd (issue_queries ag sg d chunks calls1)"
  from a fetcher_snd [OF r c] obtain responses
    where p: "Promise_all ?promises = Some (Inr responses)"
      and f: "followed = followed_of responses"
    by (auto split: option.splits sum.splits)
  from p have "fulfilled_values ?promises = Some responses" by (simp add: Promise_all_Inr)
  then have "length responses = length chunks"
    and "\<forall>k < length chunks. \<exists>t.
             getRelationships_reply ag (length calls1 + k) sg d (map fst (chunks ! k))
               = Fulfilled t (responses ! k)"
    by (auto simp: fulfilled_values_nth issue_queries_length issue_queries_nth)
  then show "\<exists>calls1 d chunks responses.
         resolve_did ag sg actor calls = (calls1, Some (Inr d))
       \<and> chunked roster 30 = Some chunks
       \<and> length responses = length chunks
       \<and> (\<forall>k < length chunks. \<exists>t.
             getRelationships_reply ag (length calls1 + k) sg d (map fst (chunks ! k))
               = Fulfilled t (responses ! k))
       \<and> followed =
           map did (filter (\<lambda>relation. dollar_type relation = ''app.bsky.graph.defs#relationship''
                                      \<and> followedBy relation)
                      (concat responses))"
    using r c f followed_of_eq [of responses] by blast
next
  assume "\<exists>calls1 d chunks responses.
         resolve_did ag sg actor calls = (calls1, Some (Inr d))
       \<and> chunked roster 30 = Some chunks
       \<and> length responses = length chunks
       \<and> (\<forall>k < length chunks. \<exists>t.
             getRelationships_reply ag (length calls1 + k) sg d (map fst (chunks ! k))
               = Fulfilled t (responses ! k))
       \<and> followed =
           map did (filter (\<lambda>relation. dollar_type relation = ''app.bsky.graph.defs#relationship''
                                      \<and> followedBy relation)
                      (concat responses))"
  then obtain calls1 d chunks responses
    where r: "resolve_did ag sg actor calls = (calls1, Some (Inr d))"
      and c: "chunked roster 30 = Some chunks"
      and l: "length responses = length chunks"
      and q: "\<forall>k < length chunks. \<exists>t.
             getRelationships_reply ag (length calls1 + k) sg d (map fst (chunks ! k))
               = Fulfilled t (responses ! k)"
      and f': "followed =
           map did (filter (\<lambda>relation. dollar_type relation = ''app.bsky.graph.defs#relationship''
                                      \<and> followedBy relation)
                      (concat responses))"
    by blast
  have f: "followed = followed_of responses" using f' by (simp add: followed_of_eq)
  let ?promises = "snd (issue_queries ag sg d chunks calls1)"
  have "fulfilled_values ?promises = Some responses"
    using l q by (simp add: fulfilled_values_nth issue_queries_length issue_queries_nth)
  then have "Promise_all ?promises = Some (Inr responses)" by (simp add: Promise_all_Inr)
  then show "snd (fetcher ag roster sg actor calls) = Some (Inr followed)"
    using fetcher_snd [OF r c] f by simp
qed

theorem fetcher_result_filter_witness:
  "snd (fetcher agent_two_batches (replicate 31 (''did:m'', ''m'')) () ''carol.test'' []) =
     Some (Inr [''did:a'', ''did:b''])"
proof -
  let ?responses =
    "[[\<lparr>dollar_type = ''app.bsky.graph.defs#relationship'', did = ''did:a'', followedBy = True\<rparr>,
       \<lparr>dollar_type = ''app.bsky.graph.defs#relationship'', did = ''did:x'', followedBy = False\<rparr>],
      [\<lparr>dollar_type = ''app.bsky.graph.defs#notFoundActor'', did = ''did:y'', followedBy = True\<rparr>,
       \<lparr>dollar_type = ''app.bsky.graph.defs#relationship'', did = ''did:b'', followedBy = True\<rparr>]]"
  have r: "resolve_did agent_two_batches () ''carol.test'' [] =
      ([ResolveHandle () ''carol.test''], Some (Inr ''did:3''))"
    by (simp add: resolve_did_def startsWith_def rpc_get_resolveHandle_def agent_two_batches_def)
  have q: "\<forall>k < length [replicate 30 (''did:m'', ''m''), [(''did:m'', ''m'')]]. \<exists>t.
        getRelationships_reply agent_two_batches (length [ResolveHandle () ''carol.test''] + k) ()
          ''did:3'' (map fst ([replicate 30 (''did:m'', ''m''), [(''did:m'', ''m'')]] ! k))
        = Fulfilled t (?responses ! k)"
    by (simp add: agent_two_batches_def less_Suc_eq)
  have "\<exists>calls1 d chunks responses.
         resolve_did agent_two_batches () ''carol.test'' [] = (calls1, Some (Inr d))
       \<and> chunked (replicate 31 (''did:m'', ''m'')) 30 = Some chunks
       \<and> length responses = length chunks
       \<and> (\<forall>k < length chunks. \<exists>t.
             getRelationships_reply agent_two_batches (length calls1 + k) () d
               (map fst (chunks ! k)) = Fulfilled t (responses ! k))
       \<and> [''did:a'', ''did:b''] =
           map did (filter (\<lambda>relation. dollar_type relation = ''app.bsky.graph.defs#relationship''
                                      \<and> followedBy relation)
                      (concat responses))"
    using r chunked_31 q
    by (intro exI [of _ "[ResolveHandle () ''carol.test'']"] exI [of _ "''did:3''"]
          exI [of _ "[replicate 30 (''did:m'', ''m''), [(''did:m'', ''m'')]]"]
          exI [of _ ?responses]) simp
  then show ?thesis
    using fetcher_result_filter [of agent_two_batches "replicate 31 (''did:m'', ''m'')" "()"
        "''carol.test''" "[]" "[''did:a'', ''did:b'']"]
    by simp
qed

section \<open>The membership query\<close>

text \<open>
  Claim C8. For every identifier, \<open>isFollowed\<close> is true if and only if the state of the
  resource is \<open>ready\<close> and the identifier is in its latest result; in every other state,
  pending and errored among them, it is false for every identifier.
\<close>

theorem isFollowed_iff:
  "isFollowed resource identifier \<longleftrightarrow>
     state resource = ''ready'' \<and> identifier \<in> set (latest resource)"
  by (simp add: isFollowed_def createSelector_def array_includes_def EMPTY_ARRAY_def)

theorem isFollowed_iff_witness:
  "isFollowed \<lparr>state = ''ready'', latest = [''did:1'']\<rparr> ''did:1''
   \<and> \<not> isFollowed \<lparr>state = ''ready'', latest = [''did:1'']\<rparr> ''did:2''
   \<and> \<not> isFollowed \<lparr>state = ''pending'', latest = [''did:1'']\<rparr> ''did:1''
   \<and> \<not> isFollowed \<lparr>state = ''refreshing'', latest = [''did:1'']\<rparr> ''did:1''
   \<and> \<not> isFollowed \<lparr>state = ''errored'', latest = [''did:1'']\<rparr> ''did:1''"
  using isFollowed_iff [of "\<lparr>state = ''ready'', latest = [''did:1'']\<rparr>" "''did:1''"]
    isFollowed_iff [of "\<lparr>state = ''ready'', latest = [''did:1'']\<rparr>" "''did:2''"]
    isFollowed_iff [of "\<lparr>state = ''pending'', latest = [''did:1'']\<rparr>" "''did:1''"]
    isFollowed_iff [of "\<lparr>state = ''refreshing'', latest = [''did:1'']\<rparr>" "''did:1''"]
    isFollowed_iff [of "\<lparr>state = ''errored'', latest = [''did:1'']\<rparr>" "''did:1''"]
  by simp

end
